theory Spec2Isabelle
  imports Main "HOL-Library.Word"
begin

unbundle bit_operations_syntax

section \<open>Adler-32 update: the embedding of \<open>adler32.c\<close>\<close>

text \<open>
  The C routine keeps two \<open>uint32_t\<close> accumulators and reads an \<open>unsigned char\<close>
  buffer through a pointer and a length.  Accumulators are \<open>32 word\<close> (so \<open>+\<close> wraps
  modulo \<open>2 ^ 32\<close> and \<open>mod\<close> is the unsigned remainder), bytes are \<open>8 word\<close>, and
  the buffer pointer is the function \<open>buf\<close> that gives the byte stored at each offset
  from the pointer (\<open>buf[n]\<close> in the source is \<open>buf n\<close>).  The function is defined at every
  offset, as the memory behind the pointer is: which offsets the routine reads is a
  matter of proof, not of the type.  Offsets and counts are \<open>size_t\<close> in the source;
  every one of them is bounded by \<open>len\<close>, so they are modelled as \<open>nat\<close>.
\<close>

type_synonym u8 = "8 word"
type_synonym u32 = "32 word"

definition ADLER32_PRIME :: u32 where
  "ADLER32_PRIME = 65521"

definition BLOCK_SIZE :: nat where
  "BLOCK_SIZE = 5552"

subsection \<open>The scalar loop for short buffers (source lines 23--26)\<close>

function short_loop :: "(nat \<Rightarrow> u8) \<Rightarrow> nat \<Rightarrow> nat \<Rightarrow> u32 \<times> u32 \<Rightarrow> u32 \<times> u32" where
  "short_loop buf len n (a, b) =
     (if n < len then
        (let a' = (a + ucast (buf n)) mod ADLER32_PRIME;
             b' = (b + a') mod ADLER32_PRIME
         in short_loop buf len (Suc n) (a', b'))
      else (a, b))"
  by pat_completeness auto
termination
  by (relation "measure (\<lambda>(buf, len, n, s). len - n)") auto

declare short_loop.simps [simp del]

subsection \<open>The unrolled 16-byte group (source lines 44--78 and 93--127)\<close>

text \<open>\<open>a += x; b += a;\<close> on the two accumulators, without reduction.\<close>

definition accumulate :: "u32 \<times> u32 \<Rightarrow> u8 \<Rightarrow> u32 \<times> u32" where
  "accumulate s x = (case s of (a, b) \<Rightarrow> (let a' = a + ucast x; b' = b + a' in (a', b')))"

text \<open>
  \<open>vld1q_u8 p\<close> loads the 16 bytes at \<open>p, p + 1, ..., p + 15\<close> into a vector register;
  \<open>vgetq_lane_u8 v k\<close> reads lane \<open>k\<close> of it.
\<close>

definition vld1q_u8 :: "(nat \<Rightarrow> u8) \<Rightarrow> nat \<Rightarrow> u8 list" where
  "vld1q_u8 buf p = map (\<lambda>k. buf (p + k)) [0..<16]"

definition vgetq_lane_u8 :: "u8 list \<Rightarrow> nat \<Rightarrow> u8" where
  "vgetq_lane_u8 v k = v ! k"

definition group16 :: "u8 list \<Rightarrow> u32 \<times> u32 \<Rightarrow> u32 \<times> u32" where
  "group16 v_data s =
     (let s = accumulate s (vgetq_lane_u8 v_data 0);
          s = accumulate s (vgetq_lane_u8 v_data 1);
          s = accumulate s (vgetq_lane_u8 v_data 2);
          s = accumulate s (vgetq_lane_u8 v_data 3);
          s = accumulate s (vgetq_lane_u8 v_data 4);
          s = accumulate s (vgetq_lane_u8 v_data 5);
          s = accumulate s (vgetq_lane_u8 v_data 6);
          s = accumulate s (vgetq_lane_u8 v_data 7);
          s = accumulate s (vgetq_lane_u8 v_data 8);
          s = accumulate s (vgetq_lane_u8 v_data 9);
          s = accumulate s (vgetq_lane_u8 v_data 10);
          s = accumulate s (vgetq_lane_u8 v_data 11);
          s = accumulate s (vgetq_lane_u8 v_data 12);
          s = accumulate s (vgetq_lane_u8 v_data 13);
          s = accumulate s (vgetq_lane_u8 v_data 14);
          s = accumulate s (vgetq_lane_u8 v_data 15)
      in s)"

subsection \<open>The block loops (source lines 38--84)\<close>

text \<open>
  \<open>block_inner buf base i s\<close> is the loop over \<open>i\<close> inside one block whose first byte
  is at offset \<open>base\<close> (\<open>block_data = buf + block * BLOCK_SIZE\<close>).
\<close>

function block_inner :: "(nat \<Rightarrow> u8) \<Rightarrow> nat \<Rightarrow> nat \<Rightarrow> u32 \<times> u32 \<Rightarrow> u32 \<times> u32" where
  "block_inner buf base i s =
     (if i < BLOCK_SIZE then
        block_inner buf base (i + 16) (group16 (vld1q_u8 buf (base + i)) s)
      else s)"
  by pat_completeness auto
termination
  by (relation "measure (\<lambda>(buf, base, i, s). BLOCK_SIZE - i)") auto

declare block_inner.simps [simp del]

function block_loop :: "(nat \<Rightarrow> u8) \<Rightarrow> nat \<Rightarrow> nat \<Rightarrow> u32 \<times> u32 \<Rightarrow> u32 \<times> u32" where
  "block_loop buf blocks block s =
     (if block < blocks then
        (case block_inner buf (block * BLOCK_SIZE) 0 s of
           (a, b) \<Rightarrow>
             block_loop buf blocks (Suc block) (a mod ADLER32_PRIME, b mod ADLER32_PRIME))
      else s)"
  by pat_completeness auto
termination
  by (relation "measure (\<lambda>(buf, blocks, block, s). blocks - block)") auto

declare block_loop.simps [simp del]

subsection \<open>The remainder (source lines 87--134)\<close>

text \<open>
  The loop over the full 16-byte groups of the remainder leaves its counter \<open>i\<close> for the
  byte loop that follows, so it returns the counter with the accumulators.
\<close>

function remaining_groups ::
  "(nat \<Rightarrow> u8) \<Rightarrow> nat \<Rightarrow> nat \<Rightarrow> nat \<Rightarrow> u32 \<times> u32 \<Rightarrow> nat \<times> (u32 \<times> u32)" where
  "remaining_groups buf base remaining i s =
     (if i + 16 \<le> remaining then
        remaining_groups buf base remaining (i + 16) (group16 (vld1q_u8 buf (base + i)) s)
      else (i, s))"
  by pat_completeness auto
termination
  by (relation "measure (\<lambda>(buf, base, remaining, i, s). remaining - i)") auto

declare remaining_groups.simps [simp del]

function final_bytes :: "(nat \<Rightarrow> u8) \<Rightarrow> nat \<Rightarrow> nat \<Rightarrow> nat \<Rightarrow> u32 \<times> u32 \<Rightarrow> u32 \<times> u32" where
  "final_bytes buf base remaining i s =
     (if i < remaining then
        final_bytes buf base remaining (Suc i) (accumulate s (buf (base + i)))
      else s)"
  by pat_completeness auto
termination
  by (relation "measure (\<lambda>(buf, base, remaining, i, s). remaining - i)") auto

declare final_bytes.simps [simp del]

subsection \<open>The routine\<close>

text \<open>
  \<open>adler32_update s1 s2 buf len\<close> takes the values of \<open>*s1\<close> and \<open>*s2\<close> on entry and
  returns the values stored to \<open>*s1\<close> and \<open>*s2\<close> on return.
\<close>

definition adler32_update :: "u32 \<Rightarrow> u32 \<Rightarrow> (nat \<Rightarrow> u8) \<Rightarrow> nat \<Rightarrow> u32 \<times> u32" where
  "adler32_update s1 s2 buf len =
     (let a = s1; b = s2 in
      if len = 0 then (1, 0)
      else if len < 16 then short_loop buf len 0 (a, b)
      else
        (let blocks = len div BLOCK_SIZE;
             remaining = len mod BLOCK_SIZE;
             s = block_loop buf blocks 0 (a, b);
             base = blocks * BLOCK_SIZE
         in case remaining_groups buf base remaining 0 s of
              (i, s') \<Rightarrow>
                (case final_bytes buf base remaining i s' of
                   (a', b') \<Rightarrow> (a' mod ADLER32_PRIME, b' mod ADLER32_PRIME))))"

subsection \<open>The routine called through its pointers\<close>

text \<open>
  The C routine reads \<open>*s1\<close> and \<open>*s2\<close> on entry, reads the buffer, and on each of its
  three return paths stores the two results through the same pointers, \<open>*s1\<close> first and
  \<open>*s2\<close> second; it has no other store.  Memory is one array of bytes and a pointer is
  an address in it, so the buffer and the two accumulators may lie anywhere, also on top
  of each other: the signature (\<open>uint32_t *\<close>, \<open>const unsigned char *\<close>, no
  \<open>restrict\<close>) allows it.  A \<open>uint32_t\<close> object occupies four bytes, least significant
  byte first.
\<close>

type_synonym memory = "nat \<Rightarrow> u8"

definition load32 :: "memory \<Rightarrow> nat \<Rightarrow> u32" where
  "load32 m p =
     ucast (m p) OR push_bit 8 (ucast (m (p + 1))) OR
     push_bit 16 (ucast (m (p + 2))) OR push_bit 24 (ucast (m (p + 3)))"

definition store32 :: "memory \<Rightarrow> nat \<Rightarrow> u32 \<Rightarrow> memory" where
  "store32 m p w =
     m(p := ucast w, p + 1 := ucast (drop_bit 8 w),
       p + 2 := ucast (drop_bit 16 w), p + 3 := ucast (drop_bit 24 w))"

definition adler32_update_call :: "nat \<Rightarrow> nat \<Rightarrow> nat \<Rightarrow> nat \<Rightarrow> memory \<Rightarrow> memory" where
  "adler32_update_call s1 s2 buf len m =
     (let a = load32 m s1; b = load32 m s2 in
      if len = 0 then store32 (store32 m s1 1) s2 0
      else if len < 16 then
        (case short_loop (\<lambda>n. m (buf + n)) len 0 (a, b) of
           (a', b') \<Rightarrow> store32 (store32 m s1 a') s2 b')
      else
        (let blocks = len div BLOCK_SIZE;
             remaining = len mod BLOCK_SIZE;
             s = block_loop (\<lambda>n. m (buf + n)) blocks 0 (a, b);
             base = blocks * BLOCK_SIZE
         in case remaining_groups (\<lambda>n. m (buf + n)) base remaining 0 s of
              (i, s') \<Rightarrow>
                (case final_bytes (\<lambda>n. m (buf + n)) base remaining i s' of
                   (a', b') \<Rightarrow>
                     store32 (store32 m s1 (a' mod ADLER32_PRIME)) s2
                       (b' mod ADLER32_PRIME))))"

section \<open>The specification's vocabulary\<close>

text \<open>
  The bytes of a buffer given by pointer and length, and the contract
  \<open>update(s1, s2, data)\<close> of the specification: the routine called on a byte sequence.
\<close>

definition contents :: "(nat \<Rightarrow> u8) \<Rightarrow> nat \<Rightarrow> u8 list" where
  "contents buf len = map buf [0..<len]"

definition update :: "u32 \<times> u32 \<Rightarrow> u8 list \<Rightarrow> u32 \<times> u32" where
  "update s data = adler32_update (fst s) (snd s) (\<lambda>n. data ! n) (length data)"

text \<open>
  The scalar byte-by-byte recurrence as the specification words it, on the 32-bit state:
  for each byte \<open>x\<close> in order, \<open>s1 = (s1 + x) mod 65521; s2 = (s2 + s1) mod 65521\<close>.
\<close>

definition scalar_step :: "u32 \<times> u32 \<Rightarrow> u8 \<Rightarrow> u32 \<times> u32" where
  "scalar_step s x =
     (case s of (s1, s2) \<Rightarrow>
        (let s1' = (s1 + ucast x) mod 65521; s2' = (s2 + s1') mod 65521 in (s1', s2')))"

definition scalar_recurrence :: "u32 \<times> u32 \<Rightarrow> u8 list \<Rightarrow> u32 \<times> u32" where
  "scalar_recurrence s data = foldl scalar_step s data"

text \<open>
  Modelled from the spec: the packed-checksum convention \<open>(s2 << 16) | s1\<close> of the
  specification's section 6.  The source file has no code that packs the two sums.
\<close>

definition packed :: "u32 \<times> u32 \<Rightarrow> u32" where
  "packed s = (case s of (s1, s2) \<Rightarrow> push_bit 16 s2 OR s1)"

text \<open>
  \<open>no_wrap (a, b) xs\<close>: running the unreduced accumulation \<open>a += x; b += a\<close> over the
  bytes \<open>xs\<close> from the accumulators \<open>(a, b)\<close>, neither addition of any step exceeds
  \<open>2 ^ 32 - 1\<close>; the sums are taken in \<open>nat\<close>, where nothing wraps.
\<close>

fun no_wrap :: "u32 \<times> u32 \<Rightarrow> u8 list \<Rightarrow> bool" where
  "no_wrap (a, b) [] = True"
| "no_wrap (a, b) (x # xs) =
     (unat a + unat x < 2 ^ 32 \<and> unat b + (unat a + unat x) < 2 ^ 32 \<and>
      no_wrap (accumulate (a, b) x) xs)"

text \<open>\<open>a %= ADLER32_PRIME; b %= ADLER32_PRIME\<close>, and the states that are reduced.\<close>

definition reduce :: "u32 \<times> u32 \<Rightarrow> u32 \<times> u32" where
  "reduce s = (fst s mod ADLER32_PRIME, snd s mod ADLER32_PRIME)"

definition reduced :: "u32 \<times> u32 \<Rightarrow> bool" where
  "reduced s \<longleftrightarrow> fst s < 65521 \<and> snd s < 65521"

text \<open>
  The two recurrences on natural numbers: the accumulation without any reduction, and
  the textbook Adler-32 step.  \<open>unat2\<close> reads a state as a pair of numbers.
\<close>

definition exact :: "nat \<times> nat \<Rightarrow> nat \<Rightarrow> nat \<times> nat" where
  "exact s x = (fst s + x, snd s + (fst s + x))"

definition textbook :: "nat \<times> nat \<Rightarrow> nat \<Rightarrow> nat \<times> nat" where
  "textbook s x = ((fst s + x) mod 65521, (snd s + (fst s + x) mod 65521) mod 65521)"

definition unat2 :: "u32 \<times> u32 \<Rightarrow> nat \<times> nat" where
  "unat2 s = (unat (fst s), unat (snd s))"

section \<open>Arithmetic of the deferred reduction\<close>

lemma unat_byte: "unat (ucast (x :: u8) :: u32) = unat x"
proof -
  have "unat x < 2 ^ 8" using unsigned_less [where 'b=8 and w=x and 'a=nat] by simp
  then have "unat x < 2 ^ 32" by simp
  then show ?thesis by (simp add: unsigned_ucast_eq take_bit_nat_eq_self)
qed

lemma byte_le: "unat (x :: u8) \<le> 255"
  using unsigned_less [where 'b=8 and w=x and 'a=nat] by simp

lemma accumulate_exact:
  assumes "unat a + unat x < 2 ^ 32" "unat b + (unat a + unat x) < 2 ^ 32"
  shows "unat2 (accumulate (a, b) x) = exact (unat2 (a, b)) (unat x)"
proof -
  have a: "unat (a + ucast x) = unat a + unat x"
    using assms(1) unat_add_lem [of a "ucast x :: u32"] by (simp add: unat_byte)
  have b: "unat (b + (a + ucast x)) = unat b + (unat a + unat x)"
    using assms(2) unat_add_lem [of b "a + ucast x"] by (simp add: a)
  show ?thesis by (simp add: accumulate_def unat2_def exact_def Let_def a b)
qed

lemma no_wrap_exact:
  "no_wrap s xs \<Longrightarrow> unat2 (foldl accumulate s xs) = foldl exact (unat2 s) (map unat xs)"
proof (induction xs arbitrary: s)
  case Nil
  show ?case by simp
next
  case (Cons x xs)
  obtain a b where s: "s = (a, b)" by (cases s)
  from Cons.prems have h: "unat a + unat x < 2 ^ 32" "unat b + (unat a + unat x) < 2 ^ 32"
    and rest: "no_wrap (accumulate (a, b) x) xs"
    by (simp_all add: s)
  show ?case
    using Cons.IH [OF rest] accumulate_exact [OF h] by (simp add: s)
qed

lemma no_wrap_bound:
  "unat a + 255 * length xs < 2 ^ 32 \<Longrightarrow>
   2 * unat b + 2 * (length xs * unat a) + 255 * (length xs * (length xs + 1)) < 2 ^ 33 \<Longrightarrow>
   no_wrap (a, b) xs"
proof (induction xs arbitrary: a b)
  case Nil
  show ?case by simp
next
  case (Cons x xs)
  let ?n = "length xs"
  have x: "unat x \<le> 255" by (rule byte_le)
  from Cons.prems(1) have a1: "unat a + 255 + 255 * ?n < 2 ^ 32" by simp
  have sq: "(?n + 1) * (?n + 2) = ?n * (?n + 1) + 2 * ?n + 2" by (simp add: algebra_simps)
  from Cons.prems(2) have b1:
    "2 * unat b + 2 * unat a + 2 * (?n * unat a) + 255 * (?n * (?n + 1)) + 510 * ?n + 510 < 2 ^ 33"
    by (simp add: algebra_simps)
  have h1: "unat a + unat x < 2 ^ 32" using a1 x by simp
  have h2: "unat b + (unat a + unat x) < 2 ^ 32" using b1 x by simp
  have ex: "unat2 (accumulate (a, b) x) = (unat a + unat x, unat b + (unat a + unat x))"
    using accumulate_exact [OF h1 h2] by (simp add: exact_def unat2_def)
  obtain a' b' where acc: "accumulate (a, b) x = (a', b')" by (cases "accumulate (a, b) x")
  with ex have a': "unat a' = unat a + unat x" and b': "unat b' = unat b + (unat a + unat x)"
    by (simp_all add: unat2_def)
  have m: "?n * unat x \<le> 255 * ?n" using x by simp
  have i1: "unat a' + 255 * ?n < 2 ^ 32" using a1 x a' by simp
  have e: "2 * unat b' + 2 * (?n * unat a') + 255 * (?n * (?n + 1)) =
      2 * unat b + 2 * unat a + 2 * unat x + 2 * (?n * unat a) + 2 * (?n * unat x)
        + 255 * (?n * (?n + 1))"
    by (simp add: a' b' algebra_simps)
  have i2: "2 * unat b' + 2 * (?n * unat a') + 255 * (?n * (?n + 1)) < 2 ^ 33"
    unfolding e using b1 x m by linarith
  show ?case using h1 h2 Cons.IH [OF i1 i2] by (simp add: acc)
qed

lemma reduced_no_wrap:
  assumes "reduced s" "length xs \<le> BLOCK_SIZE"
  shows "no_wrap s xs"
proof -
  obtain a b where s: "s = (a, b)" by (cases s)
  let ?n = "length xs"
  from assms(1) have a: "unat a \<le> 65520" and b: "unat b \<le> 65520"
    by (simp_all add: s reduced_def word_less_nat_alt)
  from assms(2) have n: "?n \<le> 5552" by (simp add: BLOCK_SIZE_def)
  have na: "?n * unat a \<le> 5552 * 65520" using n a by (rule mult_le_mono)
  have nn: "?n * (?n + 1) \<le> 5552 * 5553" using n by (intro mult_le_mono) simp_all
  have 1: "unat a + 255 * ?n < 2 ^ 32" using a n by simp
  have 2: "2 * unat b + 2 * (?n * unat a) + 255 * (?n * (?n + 1)) < 2 ^ 33"
    using b na nn by simp
  show ?thesis unfolding s using 1 2 by (rule no_wrap_bound)
qed

lemma exact_textbook:
  "foldl textbook (fst s mod 65521, snd s mod 65521) ys =
   (fst (foldl exact s ys) mod 65521, snd (foldl exact s ys) mod 65521)"
proof (induction ys arbitrary: s)
  case Nil
  show ?case by simp
next
  case (Cons y ys)
  have "textbook (fst s mod 65521, snd s mod 65521) y =
        (fst (exact s y) mod 65521, snd (exact s y) mod 65521)"
    by (simp add: textbook_def exact_def mod_simps)
  then show ?case using Cons.IH [of "exact s y"] by simp
qed

lemma unat_mod_prime: "unat ((w :: u32) mod 65521) = unat w mod 65521"
  by (simp add: unat_mod)

lemma scalar_step_textbook:
  assumes "reduced s"
  shows "unat2 (scalar_step s x) = textbook (unat2 s) (unat x)"
proof -
  obtain a b where s: "s = (a, b)" by (cases s)
  from assms have a: "unat a < 65521" and b: "unat b < 65521"
    by (simp_all add: s reduced_def word_less_nat_alt)
  have x: "unat x \<le> 255" by (rule byte_le)
  have 1: "unat (a + ucast x) = unat a + unat x"
    using a x unat_add_lem [of a "ucast x :: u32"] by (simp add: unat_byte)
  let ?a' = "(a + ucast x) mod 65521"
  have a': "unat ?a' = (unat a + unat x) mod 65521" by (simp add: unat_mod_prime 1)
  then have "unat ?a' < 65521" by simp
  then have 2: "unat (b + ?a') = unat b + unat ?a'"
    using b unat_add_lem [of b ?a'] by simp
  have b': "unat ((b + ?a') mod 65521) = (unat b + (unat a + unat x) mod 65521) mod 65521"
    by (simp only: unat_mod_prime 2 1)
  show ?thesis
    by (simp add: s scalar_step_def textbook_def unat2_def Let_def a' b')
qed

lemma scalar_step_reduced: "reduced (scalar_step s x)"
  by (cases s) (simp add: scalar_step_def reduced_def Let_def word_mod_less_divisor)

lemma scalar_fold_reduced: "reduced s \<or> xs \<noteq> [] \<Longrightarrow> reduced (foldl scalar_step s xs)"
proof (induction xs arbitrary: s)
  case Nil
  then show ?case by simp
next
  case (Cons x xs)
  show ?case using Cons.IH [of "scalar_step s x"] by (simp add: scalar_step_reduced)
qed

lemma scalar_fold_textbook:
  "reduced s \<Longrightarrow> unat2 (foldl scalar_step s xs) = foldl textbook (unat2 s) (map unat xs)"
proof (induction xs arbitrary: s)
  case Nil
  show ?case by simp
next
  case (Cons x xs)
  show ?case
    using Cons.IH [OF scalar_step_reduced, of s x] scalar_step_textbook [OF Cons.prems, of x]
    by simp
qed

lemma unat2_inject: "unat2 s = unat2 t \<Longrightarrow> s = t"
  by (cases s, cases t) (simp add: unat2_def word_unat_eq_iff)

lemma unat2_reduce: "unat2 (reduce s) = (fst (unat2 s) mod 65521, snd (unat2 s) mod 65521)"
  by (simp add: unat2_def reduce_def ADLER32_PRIME_def unat_mod_prime)

lemma unat2_reduced: "reduced s \<Longrightarrow> (fst (unat2 s) mod 65521, snd (unat2 s) mod 65521) = unat2 s"
  by (simp add: unat2_def reduced_def word_less_nat_alt)

lemma deferred_reduction:
  assumes "reduced s" "length xs \<le> BLOCK_SIZE"
  shows "reduce (foldl accumulate s xs) = foldl scalar_step s xs"
proof (rule unat2_inject)
  have "unat2 (reduce (foldl accumulate s xs)) =
        (fst (foldl exact (unat2 s) (map unat xs)) mod 65521,
         snd (foldl exact (unat2 s) (map unat xs)) mod 65521)"
    by (simp only: unat2_reduce no_wrap_exact [OF reduced_no_wrap [OF assms]])
  also have "\<dots> = foldl textbook (fst (unat2 s) mod 65521, snd (unat2 s) mod 65521) (map unat xs)"
    by (rule exact_textbook [symmetric])
  also have "\<dots> = foldl textbook (unat2 s) (map unat xs)"
    by (simp only: unat2_reduced [OF assms(1)])
  also have "\<dots> = unat2 (foldl scalar_step s xs)"
    by (rule scalar_fold_textbook [OF assms(1), symmetric])
  finally show "unat2 (reduce (foldl accumulate s xs)) = unat2 (foldl scalar_step s xs)" .
qed

section \<open>The loops as folds over the bytes they visit\<close>

lemma upt_16: "[0..<16] = [0, 1, 2, 3, 4, 5, 6, 7, 8, 9, 10, 11, 12, 13, 14, 15::nat]"
  by (simp add: upt_conv_Cons)

lemma upt_split: "i \<le> j \<Longrightarrow> j \<le> k \<Longrightarrow> [i..<k] = [i..<j] @ [j..<k]"
  using upt_add_eq_append [of i j "k - j"] by simp

lemma short_loop_fold:
  "short_loop buf len n s = foldl scalar_step s (map buf [n..<len])"
proof (induction buf len n s rule: short_loop.induct)
  case (1 buf len n a b)
  show ?case
  proof (cases "n < len")
    case True
    then show ?thesis
      using 1 by (simp add: short_loop.simps [of buf len n] upt_conv_Cons scalar_step_def ADLER32_PRIME_def Let_def)
  next
    case False
    then show ?thesis by (simp add: short_loop.simps [of buf len n])
  qed
qed

lemma lane_of_load: "k < 16 \<Longrightarrow> vgetq_lane_u8 (vld1q_u8 buf p) k = buf (p + k)"
  by (simp add: vgetq_lane_u8_def vld1q_u8_def)

lemma upt_group: "[p..<p + 16] = map (\<lambda>k. p + k) [0..<16]"
  using map_add_upt [of p 16] by (simp add: add.commute)

lemma group16_fold:
  "group16 (vld1q_u8 buf p) s = foldl accumulate s (map buf [p..<p + 16])"
  by (simp add: group16_def lane_of_load Let_def upt_group upt_16 del: upt_Suc)

lemma block_inner_fold:
  "i \<le> BLOCK_SIZE \<Longrightarrow> 16 dvd (BLOCK_SIZE - i) \<Longrightarrow>
   block_inner buf base i s = foldl accumulate s (map buf [base + i..<base + BLOCK_SIZE])"
proof (induction buf base i s rule: block_inner.induct)
  case (1 buf base i s)
  show ?case
  proof (cases "i < BLOCK_SIZE")
    case True
    from 1(3) obtain k where k: "BLOCK_SIZE - i = 16 * k" by (elim dvdE)
    with True have k0: "0 < k" by (cases k) simp_all
    with k have le: "i + 16 \<le> BLOCK_SIZE" by linarith
    have "BLOCK_SIZE - (i + 16) = 16 * (k - 1)" using k k0 by linarith
    then have dv: "16 dvd (BLOCK_SIZE - (i + 16))" by simp
    have split: "[base + i..<base + BLOCK_SIZE] =
                 [base + i..<base + i + 16] @ [base + i + 16..<base + BLOCK_SIZE]"
      using le by (intro upt_split) simp_all
    show ?thesis
      using 1(1) [OF True le dv] True
      by (simp add: block_inner.simps [of buf base i] group16_fold split add.assoc)
  next
    case False
    with 1(2) have "i = BLOCK_SIZE" by simp
    then show ?thesis by (subst block_inner.simps) simp
  qed
qed

lemma block_inner_whole:
  "block_inner buf base 0 s = foldl accumulate s (map buf [base..<base + BLOCK_SIZE])"
  using block_inner_fold [of 0 buf base s] by (simp add: BLOCK_SIZE_def)

lemma final_bytes_fold:
  "final_bytes buf base remaining i s =
   foldl accumulate s (map buf [base + i..<base + remaining])"
proof (induction buf base remaining i s rule: final_bytes.induct)
  case (1 buf base remaining i s)
  show ?case
  proof (cases "i < remaining")
    case True
    then show ?thesis
      using 1 by (simp add: final_bytes.simps [of buf base remaining i] upt_conv_Cons)
  next
    case False
    then show ?thesis by (simp add: final_bytes.simps [of buf base remaining i])
  qed
qed

lemma remainder_fold:
  "i \<le> remaining \<Longrightarrow>
   (case remaining_groups buf base remaining i s of
      (i', s') \<Rightarrow> final_bytes buf base remaining i' s') =
   foldl accumulate s (map buf [base + i..<base + remaining])"
proof (induction buf base remaining i s rule: remaining_groups.induct)
  case (1 buf base remaining i s)
  show ?case
  proof (cases "i + 16 \<le> remaining")
    case True
    have split: "[base + i..<base + remaining] =
                 [base + i..<base + i + 16] @ [base + i + 16..<base + remaining]"
      using True by (intro upt_split) simp_all
    show ?thesis
      using 1(1) [OF True True] True
      by (simp add: remaining_groups.simps [of buf base remaining i] group16_fold split add.assoc)
  next
    case False
    then show ?thesis
      by (simp add: remaining_groups.simps [of buf base remaining i] final_bytes_fold)
  qed
qed

text \<open>The routine, with every loop read as a fold over the bytes it visits.\<close>

lemma adler32_update_folds:
  "adler32_update s1 s2 buf len =
     (if len = 0 then (1, 0)
      else if len < 16 then foldl scalar_step (s1, s2) (map buf [0..<len])
      else reduce (foldl accumulate (block_loop buf (len div BLOCK_SIZE) 0 (s1, s2))
                    (map buf [len div BLOCK_SIZE * BLOCK_SIZE..<len])))"
proof -
  let ?base = "len div BLOCK_SIZE * BLOCK_SIZE"
  let ?s = "block_loop buf (len div BLOCK_SIZE) 0 (s1, s2)"
  obtain i s' where rg: "remaining_groups buf ?base (len mod BLOCK_SIZE) 0 ?s = (i, s')"
    by (cases "remaining_groups buf ?base (len mod BLOCK_SIZE) 0 ?s")
  have e: "?base + len mod BLOCK_SIZE = len" by simp
  have fb: "final_bytes buf ?base (len mod BLOCK_SIZE) i s' =
            foldl accumulate ?s (map buf [?base..<len])"
    using remainder_fold [of 0 "len mod BLOCK_SIZE" buf ?base ?s] by (simp add: rg e)
  show ?thesis
    by (simp add: adler32_update_def Let_def short_loop_fold rg fb reduce_def
        split: prod.splits)
qed

lemma block_loop_step:
  "block < blocks \<Longrightarrow>
   block_loop buf blocks block s =
   block_loop buf blocks (Suc block)
     (reduce (foldl accumulate s (map buf [block * BLOCK_SIZE..<Suc block * BLOCK_SIZE])))"
  by (subst block_loop.simps)
     (simp add: block_inner_whole reduce_def add.commute split: prod.splits)

lemma block_loop_done: "\<not> block < blocks \<Longrightarrow> block_loop buf blocks block s = s"
  by (subst block_loop.simps) simp

lemma block_loop_scalar:
  "reduced s \<Longrightarrow> block \<le> blocks \<Longrightarrow>
   block_loop buf blocks block s =
   foldl scalar_step s (map buf [block * BLOCK_SIZE..<blocks * BLOCK_SIZE])"
proof (induction buf blocks block s rule: block_loop.induct)
  case (1 buf blocks block s)
  show ?case
  proof (cases "block < blocks")
    case True
    let ?xs = "map buf [block * BLOCK_SIZE..<Suc block * BLOCK_SIZE]"
    let ?s' = "reduce (foldl accumulate s ?xs)"
    have len: "length ?xs \<le> BLOCK_SIZE" by simp
    have eq: "?s' = foldl scalar_step s ?xs"
      using "1.prems"(1) len by (rule deferred_reduction)
    have red: "reduced ?s'" unfolding eq using "1.prems"(1) by (simp add: scalar_fold_reduced)
    have le: "Suc block * BLOCK_SIZE \<le> blocks * BLOCK_SIZE"
      using True by (intro mult_le_mono1) simp
    have split: "[block * BLOCK_SIZE..<blocks * BLOCK_SIZE] =
        [block * BLOCK_SIZE..<Suc block * BLOCK_SIZE] @ [Suc block * BLOCK_SIZE..<blocks * BLOCK_SIZE]"
      using le by (intro upt_split) simp_all
    obtain a b where ab: "block_inner buf (block * BLOCK_SIZE) 0 s = (a, b)"
      by (cases "block_inner buf (block * BLOCK_SIZE) 0 s")
    have s': "(a mod ADLER32_PRIME, b mod ADLER32_PRIME) = ?s'"
      using ab by (simp add: block_inner_whole reduce_def add.commute)
    have "block_loop buf blocks (Suc block) ?s' =
          foldl scalar_step ?s' (map buf [Suc block * BLOCK_SIZE..<blocks * BLOCK_SIZE])"
      using "1.IH" [OF True ab [symmetric]] red True unfolding s' by simp
    then show ?thesis
      unfolding block_loop_step [OF True] by (simp only: eq split map_append foldl_append)
  next
    case False
    with "1.prems"(2) have "block = blocks" by simp
    then show ?thesis by (simp add: block_loop_done)
  qed
qed

lemma adler32_update_scalar:
  assumes "reduced (s1, s2)"
  shows "adler32_update s1 s2 buf len =
         (if len = 0 then (1, 0) else foldl scalar_step (s1, s2) (map buf [0..<len]))"
proof (cases "len < 16")
  case True
  then show ?thesis by (simp add: adler32_update_folds)
next
  case False
  let ?k = "len div BLOCK_SIZE * BLOCK_SIZE"
  let ?s = "foldl scalar_step (s1, s2) (map buf [0..<?k])"
  have k: "?k \<le> len" by simp
  have blocks: "block_loop buf (len div BLOCK_SIZE) 0 (s1, s2) = ?s"
    using block_loop_scalar [OF assms, of 0 "len div BLOCK_SIZE" buf] by simp
  have red: "reduced ?s" using assms by (simp add: scalar_fold_reduced)
  have "len - ?k = len mod BLOCK_SIZE" by (simp add: minus_div_mult_eq_mod)
  then have short: "length (map buf [?k..<len]) \<le> BLOCK_SIZE"
    by (simp add: BLOCK_SIZE_def)
  have split: "[0..<len] = [0..<?k] @ [?k..<len]"
    using k by (intro upt_split) simp_all
  have "adler32_update s1 s2 buf len = reduce (foldl accumulate ?s (map buf [?k..<len]))"
    using False by (simp add: adler32_update_folds blocks)
  also have "\<dots> = foldl scalar_step ?s (map buf [?k..<len])"
    using red short by (rule deferred_reduction)
  also have "\<dots> = foldl scalar_step (s1, s2) (map buf [0..<len])"
    by (simp only: split map_append foldl_append)
  finally show ?thesis using False by simp
qed

section \<open>Consequences for the routine and its callers\<close>

lemma reduced_reduce: "reduced (reduce s)"
  by (simp add: reduced_def reduce_def ADLER32_PRIME_def word_mod_less_divisor)

lemma adler32_update_reduced: "reduced (adler32_update s1 s2 buf len)"
proof -
  have "0 < len \<Longrightarrow> map buf [0..<len] \<noteq> []" by simp
  then show ?thesis
    by (simp add: adler32_update_folds reduced_reduce scalar_fold_reduced) (simp add: reduced_def)
qed

lemma contents_nth: "contents (\<lambda>n. data ! n) (length data) = data"
  by (simp add: contents_def map_nth)

lemma update_scalar:
  "reduced s \<Longrightarrow> update s data = (if data = [] then (1, 0) else scalar_recurrence s data)"
  using adler32_update_scalar [of "fst s" "snd s" "\<lambda>n. data ! n" "length data"]
    contents_nth [of data]
  by (simp add: update_def scalar_recurrence_def contents_def)

lemma update_reduced: "reduced (update s data)"
  by (simp add: update_def adler32_update_reduced)

lemma update_empty: "update s [] = (1, 0)"
  by (simp add: update_def adler32_update_def)

lemma reduced_identity: "reduced (1, 0)"
  by (simp add: reduced_def)

lemma chain_scalar:
  "reduced s \<Longrightarrow> \<forall>c \<in> set chunks. c \<noteq> [] \<Longrightarrow>
   foldl update s chunks = scalar_recurrence s (concat chunks)"
proof (induction chunks arbitrary: s)
  case Nil
  show ?case by (simp add: scalar_recurrence_def)
next
  case (Cons c cs)
  from Cons.prems have c: "c \<noteq> []" and cs: "\<forall>c \<in> set cs. c \<noteq> []" by simp_all
  have 1: "update s c = scalar_recurrence s c"
    using Cons.prems(1) c by (simp add: update_scalar)
  have "foldl update (update s c) cs = scalar_recurrence (update s c) (concat cs)"
    using update_reduced cs by (rule Cons.IH)
  then show ?case by (simp add: 1 scalar_recurrence_def)
qed

lemma chain_identity:
  assumes "\<forall>c \<in> set chunks. c \<noteq> []"
  shows "foldl update (1, 0) chunks = update (1, 0) (concat chunks)"
proof -
  have "update (1, 0) (concat chunks) = scalar_recurrence (1, 0) (concat chunks)"
  proof (cases "concat chunks = []")
    case True
    then show ?thesis by (simp only: update_empty scalar_recurrence_def foldl_Nil)
  next
    case False
    then show ?thesis by (simp only: update_scalar [OF reduced_identity] if_False)
  qed
  then show ?thesis using chain_scalar [OF reduced_identity assms] by simp
qed

lemma block_loop_cong:
  "\<forall>n < blocks * BLOCK_SIZE. buf n = buf' n \<Longrightarrow>
   block_loop buf blocks block s = block_loop buf' blocks block s"
proof (induction "blocks - block" arbitrary: block s)
  case 0
  then show ?case by (simp add: block_loop_done)
next
  case (Suc d)
  then have lt: "block < blocks" by simp
  have "Suc block * BLOCK_SIZE \<le> blocks * BLOCK_SIZE"
    using lt by (intro mult_le_mono1) simp
  then have same: "map buf [block * BLOCK_SIZE..<Suc block * BLOCK_SIZE] =
                   map buf' [block * BLOCK_SIZE..<Suc block * BLOCK_SIZE]"
    using Suc.prems by (intro map_cong refl) simp
  have d: "d = blocks - Suc block" using Suc.hyps(2) by simp
  show ?case
    unfolding block_loop_step [OF lt] same by (rule Suc.hyps(1) [OF d Suc.prems])
qed

lemma adler32_update_cong:
  assumes "\<forall>n < len. buf n = buf' n"
  shows "adler32_update s1 s2 buf len = adler32_update s1 s2 buf' len"
proof -
  let ?k = "len div BLOCK_SIZE"
  have k: "?k * BLOCK_SIZE \<le> len" by simp
  have 1: "map buf [0..<len] = map buf' [0..<len]"
    using assms by (intro map_cong refl) simp
  have 2: "map buf [?k * BLOCK_SIZE..<len] = map buf' [?k * BLOCK_SIZE..<len]"
    using assms by (intro map_cong refl) simp
  have "n < len" if "n < ?k * BLOCK_SIZE" for n using that k by (rule less_le_trans)
  then have "\<forall>n < ?k * BLOCK_SIZE. buf n = buf' n" using assms by blast
  then have 3: "block_loop buf ?k 0 (s1, s2) = block_loop buf' ?k 0 (s1, s2)"
    by (rule block_loop_cong)
  show ?thesis by (simp only: adler32_update_folds 1 2 3)
qed

lemma block_loop_snoc:
  "j \<le> k \<Longrightarrow>
   block_loop buf (Suc k) j s =
   reduce (foldl accumulate (block_loop buf k j s) (map buf [k * BLOCK_SIZE..<Suc k * BLOCK_SIZE]))"
proof (induction "k - j" arbitrary: j s)
  case 0
  then have "j = k" by simp
  then show ?case by (simp add: block_loop_step block_loop_done)
next
  case (Suc d)
  then have lt: "j < k" and lt': "j < Suc k" and le: "Suc j \<le> k" by simp_all
  have d: "d = k - Suc j" using Suc.hyps(2) by simp
  show ?case
    unfolding block_loop_step [OF lt] block_loop_step [OF lt']
    by (rule Suc.hyps(1) [OF d le])
qed

lemma block_loop_reduced: "reduced s \<Longrightarrow> reduced (block_loop buf blocks 0 s)"
  using block_loop_scalar [of s 0 blocks buf] by (simp add: scalar_fold_reduced)

lemma exact_replicate:
  "fst (foldl exact s (replicate n x)) = fst s + n * x \<and>
   2 * snd (foldl exact s (replicate n x)) = 2 * snd s + 2 * (n * fst s) + x * (n * (n + 1))"
proof (induction n arbitrary: s)
  case 0
  show ?case by simp
next
  case (Suc n)
  show ?case using Suc [of "exact s x"] by (simp add: exact_def algebra_simps)
qed

lemma block_size_is_largest:
  "\<not> no_wrap (65520, 65520) (replicate (Suc BLOCK_SIZE) 255)"
proof
  let ?xs = "replicate (Suc BLOCK_SIZE) (255 :: u8)"
  let ?r = "foldl accumulate (65520, 65520) ?xs"
  assume "no_wrap (65520, 65520) ?xs"
  then have "unat2 ?r = foldl exact (unat2 (65520, 65520)) (map unat ?xs)"
    by (rule no_wrap_exact)
  then have "snd (unat2 ?r) = snd (foldl exact (unat2 (65520, 65520)) (map unat ?xs))"
    by (rule arg_cong)
  then have "unat (snd ?r) = snd (foldl exact (65520, 65520) (replicate (Suc BLOCK_SIZE) 255))"
    by (simp add: unat2_def del: replicate_Suc)
  moreover have "2 * snd (foldl exact (65520, 65520) (replicate (Suc BLOCK_SIZE) 255)) =
      8592343470"
    unfolding exact_replicate [THEN conjunct2] by (simp add: BLOCK_SIZE_def del: replicate_Suc)
  moreover have "unat (snd ?r) < 2 ^ 32"
    using unsigned_less [where 'b=32 and w="snd ?r" and 'a=nat] by simp
  ultimately show False by simp
qed

text \<open>
  The call through pointers is the routine on the values it loads, followed by the two
  stores; a stored \<open>uint32_t\<close> reads back, and a store leaves the other bytes alone.
\<close>

lemma adler32_update_call_eq:
  "adler32_update_call s1 s2 buf len m =
     (case adler32_update (load32 m s1) (load32 m s2) (\<lambda>n. m (buf + n)) len of
        (a, b) \<Rightarrow> store32 (store32 m s1 a) s2 b)"
  by (simp add: adler32_update_call_def adler32_update_def Let_def split: prod.splits)

lemma store32_elsewhere: "p < q \<or> q + 4 \<le> p \<Longrightarrow> store32 m q w p = m p"
  by (auto simp: store32_def)

lemma four_bytes:
  "ucast (ucast w :: u8) OR push_bit 8 (ucast (ucast (drop_bit 8 w) :: u8)) OR
   push_bit 16 (ucast (ucast (drop_bit 16 w) :: u8)) OR
   push_bit 24 (ucast (ucast (drop_bit 24 w) :: u8)) = (w :: u32)"
proof (rule bit_word_eqI)
  fix n
  assume "n < LENGTH(32)"
  then have n: "n < 32" by simp
  have 1: "8 + (n - 8) = n" if "8 \<le> n" using that by simp
  have 2: "16 + (n - 16) = n" if "16 \<le> n" using that by simp
  have 3: "24 + (n - 24) = n" if "24 \<le> n" using that by simp
  consider "n < 8" | "8 \<le> n" "n < 16" | "16 \<le> n" "n < 24" | "24 \<le> n" by linarith
  then show "bit (ucast (ucast w :: u8) OR push_bit 8 (ucast (ucast (drop_bit 8 w) :: u8)) OR
      push_bit 16 (ucast (ucast (drop_bit 16 w) :: u8)) OR
      push_bit 24 (ucast (ucast (drop_bit 24 w) :: u8)) :: u32) n = bit w n"
    using n by cases (auto simp: bit_simps 1 2 3)
qed

lemma load32_store32_same: "load32 (store32 m p w) p = w"
  by (simp add: load32_def store32_def four_bytes)

lemma load32_store32_other:
  "p + 4 \<le> q \<or> q + 4 \<le> p \<Longrightarrow> load32 (store32 m q w) p = load32 m p"
  by (auto simp: load32_def store32_elsewhere)

section \<open>The properties\<close>

text \<open>
  C1. From a reduced starting state, for every length and content, the routine returns
  what the scalar byte-by-byte recurrence returns on the whole buffer; on the empty
  buffer it returns \<open>(1, 0)\<close>.  The recurrence is taken both ways: on the 32-bit state,
  as the short-buffer regime runs it, and on natural numbers, where no sum is cut.
\<close>

theorem adler32_update_matches_scalar:
  assumes "s1 < 65521" and "s2 < 65521"
  shows "adler32_update s1 s2 buf len =
           (if len = 0 then (1, 0) else scalar_recurrence (s1, s2) (contents buf len)) \<and>
         unat2 (adler32_update s1 s2 buf len) =
           (if len = 0 then (1, 0)
            else foldl textbook (unat s1, unat s2) (map unat (contents buf len)))"
proof -
  from assms have red: "reduced (s1, s2)" by (simp add: reduced_def)
  have 1: "adler32_update s1 s2 buf len =
      (if len = 0 then (1, 0) else scalar_recurrence (s1, s2) (contents buf len))"
    using adler32_update_scalar [OF red, of buf len]
    by (simp add: scalar_recurrence_def contents_def)
  have 2: "unat2 (scalar_recurrence (s1, s2) (contents buf len)) =
      foldl textbook (unat s1, unat s2) (map unat (contents buf len))"
    using scalar_fold_textbook [OF red, of "contents buf len"]
    by (simp add: scalar_recurrence_def unat2_def)
  show ?thesis
  proof (cases "len = 0")
    case True
    then show ?thesis unfolding 1 by (simp add: unat2_def)
  next
    case False
    then show ?thesis unfolding 1 using 2 by simp
  qed
qed

theorem adler32_update_matches_scalar_witness:
  "(1 :: u32) < 65521 \<and> (0 :: u32) < 65521 \<and>
   adler32_update 1 0 (\<lambda>n. 255) 17 = scalar_recurrence (1, 0) (contents (\<lambda>n. 255) 17)"
  using adler32_update_matches_scalar [of 1 0 "\<lambda>n. 255" 17] by simp

text \<open>
  C2. From a reduced starting state, both returned sums are below 65521 (they are
  unsigned, so never negative).
\<close>

theorem adler32_update_in_range:
  assumes "s1 < 65521" and "s2 < 65521"
  shows "fst (adler32_update s1 s2 buf len) < 65521 \<and>
         snd (adler32_update s1 s2 buf len) < 65521"
  using adler32_update_reduced [of s1 s2 buf len] by (simp add: reduced_def)

theorem adler32_update_in_range_witness:
  "(1 :: u32) < 65521 \<and> (0 :: u32) < 65521 \<and>
   fst (adler32_update 1 0 (\<lambda>n. 255) 20) < 65521 \<and>
   snd (adler32_update 1 0 (\<lambda>n. 255) 20) < 65521"
  using adler32_update_in_range [of 1 0 "\<lambda>n. 255" 20] by simp

text \<open>
  C3. With \<open>len = 0\<close> the routine returns \<open>(1, 0)\<close> whatever the incoming state is.
\<close>

theorem empty_buffer_resets:
  "adler32_update s1 s2 buf 0 = (1, 0) \<and> update (s1, s2) [] = (1, 0)"
  by (simp add: update_def adler32_update_def)

text \<open>
  C4. Threading the state from \<open>(1, 0)\<close> through calls on consecutive non-empty chunks
  gives the result of the single call on their concatenation.
\<close>

theorem chunking_invariance:
  assumes "\<forall>c \<in> set chunks. c \<noteq> []"
  shows "foldl update (1, 0) chunks = update (1, 0) (concat chunks)"
  using assms by (rule chain_identity)

theorem chunking_invariance_witness:
  "[97, 98 :: u8] \<noteq> [] \<and> [99 :: u8] \<noteq> [] \<and>
   foldl update (1, 0) [[97, 98], [99]] = update (1, 0) (concat [[97, 98], [99]])"
proof -
  have h: "\<forall>c \<in> set [[97, 98], [99 :: u8]]. c \<noteq> []" by simp
  show ?thesis using chunking_invariance [OF h] by simp
qed

text \<open>
  C5. An empty chunk resets the running state: whatever came before it, the chained
  result is the single-call checksum of the chunks after the last empty chunk; and the
  split \<open>"a", "", "b"\<close> of \<open>"ab"\<close> gives a result different from the single call.
\<close>

theorem empty_chunk_breaks_chain:
  "((\<forall>c \<in> set post. c \<noteq> []) \<longrightarrow>
      foldl update s (pre @ [] # post) = update (1, 0) (concat post)) \<and>
   foldl update (1, 0) [[97], [], [98]] \<noteq> update (1, 0) (concat [[97], [], [98]])"
proof
  show "(\<forall>c \<in> set post. c \<noteq> []) \<longrightarrow>
      foldl update s (pre @ [] # post) = update (1, 0) (concat post)"
    by (simp add: update_empty chain_identity)
  have 1: "foldl update (1, 0) [[97], [], [98]] = (99, 99)"
    by (simp add: update_def adler32_update_def short_loop.simps ADLER32_PRIME_def)
  have 2: "update (1, 0) (concat [[97], [], [98]]) = (196, 294)"
    by (simp add: update_def adler32_update_def short_loop.simps ADLER32_PRIME_def)
  show "foldl update (1, 0) [[97], [], [98]] \<noteq> update (1, 0) (concat [[97], [], [98]])"
    unfolding 1 2 by simp
qed

theorem empty_chunk_breaks_chain_witness:
  "[98 :: u8] \<noteq> [] \<and>
   foldl update (7, 9) ([[97]] @ [] # [[98]]) = update (1, 0) (concat [[98]])"
  using empty_chunk_breaks_chain [of "[[98]]" "(7, 9)" "[[97]]"] by simp

text \<open>
  C6. From a reduced starting state and with \<open>len \<ge> 16\<close>: the state at the start of
  each full block is what the block loop has computed over the blocks before it, the
  state after the block is the reduction of the unreduced accumulation over the block's
  5552 bytes, and no addition of that accumulation wraps; the result of the routine is
  the reduction of the unreduced accumulation over the last \<open>len mod 5552\<close> bytes from
  the state after the last full block, and no addition of that accumulation wraps.
\<close>

theorem deferred_accumulation_never_wraps:
  assumes "s1 < 65521" and "s2 < 65521" and "16 \<le> len"
  shows "(\<forall>k < len div BLOCK_SIZE.
            no_wrap (block_loop buf k 0 (s1, s2))
              (map buf [k * BLOCK_SIZE..<Suc k * BLOCK_SIZE]) \<and>
            block_loop buf (Suc k) 0 (s1, s2) =
              reduce (foldl accumulate (block_loop buf k 0 (s1, s2))
                (map buf [k * BLOCK_SIZE..<Suc k * BLOCK_SIZE]))) \<and>
         no_wrap (block_loop buf (len div BLOCK_SIZE) 0 (s1, s2))
           (map buf [len div BLOCK_SIZE * BLOCK_SIZE..<len]) \<and>
         adler32_update s1 s2 buf len =
           reduce (foldl accumulate (block_loop buf (len div BLOCK_SIZE) 0 (s1, s2))
             (map buf [len div BLOCK_SIZE * BLOCK_SIZE..<len]))"
proof -
  from assms have red: "reduced (s1, s2)" by (simp add: reduced_def)
  have start: "reduced (block_loop buf k 0 (s1, s2))" for k
    using red by (rule block_loop_reduced)
  have "len - len div BLOCK_SIZE * BLOCK_SIZE = len mod BLOCK_SIZE"
    by (simp add: minus_div_mult_eq_mod)
  then have short: "length (map buf [len div BLOCK_SIZE * BLOCK_SIZE..<len]) \<le> BLOCK_SIZE"
    by (simp add: BLOCK_SIZE_def)
  have blocks: "no_wrap (block_loop buf k 0 (s1, s2))
      (map buf [k * BLOCK_SIZE..<Suc k * BLOCK_SIZE])" for k
    by (rule reduced_no_wrap [OF start]) simp
  have rest: "no_wrap (block_loop buf (len div BLOCK_SIZE) 0 (s1, s2))
      (map buf [len div BLOCK_SIZE * BLOCK_SIZE..<len])"
    using start short by (rule reduced_no_wrap)
  have final: "adler32_update s1 s2 buf len =
      reduce (foldl accumulate (block_loop buf (len div BLOCK_SIZE) 0 (s1, s2))
        (map buf [len div BLOCK_SIZE * BLOCK_SIZE..<len]))"
    using assms(3) by (simp add: adler32_update_folds)
  show ?thesis
    using blocks rest final block_loop_snoc [of 0 _ buf "(s1, s2)"] by blast
qed

theorem deferred_accumulation_never_wraps_witness:
  "(1 :: u32) < 65521 \<and> (0 :: u32) < 65521 \<and> (16 :: nat) \<le> 16 \<and>
   no_wrap (block_loop (\<lambda>n. 255) (16 div BLOCK_SIZE) 0 (1, 0))
     (map (\<lambda>n. 255) [16 div BLOCK_SIZE * BLOCK_SIZE..<16])"
  using deferred_accumulation_never_wraps [of 1 0 16 "\<lambda>n. 255"] by simp

text \<open>
  C7. The known vectors from the initial state \<open>(1, 0)\<close>: the empty string gives
  \<open>(1, 0)\<close>, packed \<open>0x00000001\<close>; \<open>"abc"\<close> packs to \<open>0x024d0127\<close>; \<open>"Wikipedia"\<close>
  packs to \<open>0x11E60398\<close>.
\<close>

theorem known_vectors:
  "update (1, 0) [] = (1, 0) \<and>
   packed (update (1, 0) []) = 0x00000001 \<and>
   packed (update (1, 0) (map of_char ''abc'')) = 0x024d0127 \<and>
   packed (update (1, 0) (map of_char ''Wikipedia'')) = 0x11E60398"
  by (simp add: update_def adler32_update_def short_loop.simps ADLER32_PRIME_def packed_def)

text \<open>
  C8. For \<open>1 \<le> len < 16\<close> and every starting state the routine is the scalar
  recurrence over the bytes in buffer order, reducing both sums after every byte.
\<close>

theorem short_buffer_is_scalar:
  assumes "1 \<le> len" and "len < 16"
  shows "adler32_update s1 s2 buf len = scalar_recurrence (s1, s2) (contents buf len) \<and>
         adler32_update s1 s2 buf len = short_loop buf len 0 (s1, s2)"
  using assms
  by (simp add: adler32_update_def short_loop_fold scalar_recurrence_def contents_def)

theorem short_buffer_is_scalar_witness:
  "(1 :: nat) \<le> 3 \<and> (3 :: nat) < 16 \<and>
   adler32_update 4294967295 7 (\<lambda>n. 1) 3 =
     scalar_recurrence (4294967295, 7) (contents (\<lambda>n. 1) 3)"
  using short_buffer_is_scalar [of 3 4294967295 7 "\<lambda>n. 1"] by simp

text \<open>
  C9. Provided the two accumulators do not overlap each other, two calls whose
  accumulators hold equal values on entry and whose buffers hold equal bytes over the
  same length leave equal values in the accumulators, whatever else the two memories
  hold and wherever the buffers and accumulators lie; these values are the routine's
  result on the entry values and the \<open>len\<close> bytes of the buffer.  A call changes no byte
  outside the two accumulators, so a buffer that overlaps neither is left as it was.
\<close>

theorem adler32_update_pure:
  assumes "s1 + 4 \<le> s2 \<or> s2 + 4 \<le> s1" and "s1' + 4 \<le> s2' \<or> s2' + 4 \<le> s1'"
    and "load32 m s1 = load32 m' s1'" and "load32 m s2 = load32 m' s2'"
    and "\<forall>n < len. m (buf + n) = m' (buf' + n)"
  shows "load32 (adler32_update_call s1 s2 buf len m) s1 =
           load32 (adler32_update_call s1' s2' buf' len m') s1' \<and>
         load32 (adler32_update_call s1 s2 buf len m) s2 =
           load32 (adler32_update_call s1' s2' buf' len m') s2' \<and>
         (load32 (adler32_update_call s1 s2 buf len m) s1,
          load32 (adler32_update_call s1 s2 buf len m) s2) =
           adler32_update (load32 m s1) (load32 m s2) (\<lambda>n. m (buf + n)) len \<and>
         (\<forall>p. (p < s1 \<or> s1 + 4 \<le> p) \<and> (p < s2 \<or> s2 + 4 \<le> p) \<longrightarrow>
            adler32_update_call s1 s2 buf len m p = m p)"
proof -
  have same: "adler32_update (load32 m s1) (load32 m s2) (\<lambda>n. m (buf + n)) len =
        adler32_update (load32 m' s1') (load32 m' s2') (\<lambda>n. m' (buf' + n)) len"
    unfolding assms(3,4) using assms(5) by (rule adler32_update_cong)
  have readback: "load32 (store32 (store32 k p a) q b) p = a \<and>
              load32 (store32 (store32 k p a) q b) q = b"
    if "p + 4 \<le> q \<or> q + 4 \<le> p" for k :: memory and p q a b
    using that by (simp add: load32_store32_same load32_store32_other)
  obtain a b where r: "adler32_update (load32 m s1) (load32 m s2) (\<lambda>n. m (buf + n)) len = (a, b)"
    by (cases "adler32_update (load32 m s1) (load32 m s2) (\<lambda>n. m (buf + n)) len")
  have frame: "store32 (store32 m s1 a) s2 b p = m p"
    if "(p < s1 \<or> s1 + 4 \<le> p) \<and> (p < s2 \<or> s2 + 4 \<le> p)" for p
    using that by (simp add: store32_elsewhere)
  have r': "adler32_update (load32 m' s1') (load32 m' s2') (\<lambda>n. m' (buf' + n)) len = (a, b)"
    using same r by simp
  have c: "adler32_update_call s1 s2 buf len m = store32 (store32 m s1 a) s2 b"
    by (simp add: adler32_update_call_eq r)
  have c': "adler32_update_call s1' s2' buf' len m' = store32 (store32 m' s1' a) s2' b"
    by (simp add: adler32_update_call_eq r')
  show ?thesis
    unfolding c c' r
    using readback [OF assms(1), of m a b] readback [OF assms(2), of m' a b] frame
    by simp
qed

theorem adler32_update_pure_witness:
  "load32 (adler32_update_call 0 4 8 1 ((\<lambda>n. 0)(0 := 1, 8 := 97))) 0 =
   load32 (adler32_update_call 30 20 10 1 ((\<lambda>n. 0)(30 := 1, 10 := 97, 11 := 5))) 30"
  using adler32_update_pure [of 0 4 30 20 "(\<lambda>n. 0)(0 := 1, 8 := 97)"
      "(\<lambda>n. 0)(30 := 1, 10 := 97, 11 := 5)" 1 8 10]
  by (simp add: load32_def)

text \<open>
  Without the provisos C9 fails.  With \<open>buf\<close> pointing at the four bytes of \<open>*s1\<close>
  (which holds 1) and \<open>len = 4\<close>, the call stores 2 to \<open>*s1\<close> and so rewrites a byte of
  its input buffer: the first one, least significant byte first (the sum over all four
  bytes, and so the stored 2, is the same in the other byte order).  With \<open>s1 = s2\<close>
  the second store overwrites the first: on entry values \<open>(1, 1)\<close> and the one-byte buffer
  \<open>1\<close>, the call on one shared object leaves 3 where the call on two separate objects
  leaves 2.
\<close>

theorem adler32_update_pure_counterexample:
  "adler32_update_call 0 8 0 4 ((\<lambda>n. 0)(0 := 1)) 0 \<noteq> ((\<lambda>n. 0)(0 := 1)) 0 \<and>
   load32 ((\<lambda>n. 0)(0 := 1, 8 := 1)) 0 = load32 ((\<lambda>n. 0)(0 := 1, 4 := 1, 8 := 1)) 0 \<and>
   load32 ((\<lambda>n. 0)(0 := 1, 8 := 1)) 0 = load32 ((\<lambda>n. 0)(0 := 1, 4 := 1, 8 := 1)) 4 \<and>
   ((\<lambda>n. 0)(0 := 1, 8 := 1)) 8 = ((\<lambda>n. 0)(0 := 1, 4 := 1, 8 := 1 :: u8)) 8 \<and>
   load32 (adler32_update_call 0 0 8 1 ((\<lambda>n. 0)(0 := 1, 8 := 1))) 0 \<noteq>
   load32 (adler32_update_call 0 4 8 1 ((\<lambda>n. 0)(0 := 1, 4 := 1, 8 := 1))) 0"
  by (simp add: adler32_update_call_def short_loop.simps ADLER32_PRIME_def
      load32_def store32_def)

text \<open>
  C10. For every starting state, reduced or not, the routine returns (it is a total
  function on 32-bit words, whose additions wrap) and both returned sums are below
  65521.
\<close>

theorem adler32_update_always_reduced:
  "fst (adler32_update s1 s2 buf len) < 65521 \<and> snd (adler32_update s1 s2 buf len) < 65521"
  using adler32_update_reduced [of s1 s2 buf len] by (simp add: reduced_def)

end
